theory Spec2Isabelle
  imports Main "HOL-Library.Monad_Syntax"
begin

section \<open>The super tiny compiler: a shallow embedding\<close>

text \<open>
  The four stages of \<^verbatim>\<open>the-super-tiny-compiler.js\<close> (\<^verbatim>\<open>tokenizer\<close>, \<^verbatim>\<open>parser\<close>,
  \<^verbatim>\<open>transformer\<close> on top of \<^verbatim>\<open>traverser\<close>, \<^verbatim>\<open>codeGenerator\<close>) and their composition
  \<^verbatim>\<open>compiler\<close>, as HOL functions.

  \<^item> A JavaScript string is a \<open>string\<close>; each \<open>char\<close> stands for one code unit below 256.
  \<^item> Reading an array or a string out of range gives \<^verbatim>\<open>undefined\<close>: \<open>None\<close>.
  \<^item> An exception is a value \<open>Inl e\<close> of the type \<open>error + 'a\<close>.
  \<^item> A computation that may run forever has the type \<open>'a option\<close>, and \<open>None\<close> says that it
    never returns.
\<close>

subsection \<open>Values, errors and the primitives of the host language\<close>

text \<open>
  \<open>TypeError m\<close> is a \<^verbatim>\<open>throw new TypeError(m)\<close> written in the source.
  \<open>CannotReadProperty p\<close> is the exception the host raises when the property \<open>p\<close> of
  \<^verbatim>\<open>undefined\<close> or \<^verbatim>\<open>null\<close> is read: the source never throws it itself.
  \<open>NoSuchArray a\<close> belongs to the model only: it is the use of an address that the store
  does not hold, which no reference of the host language can be.
\<close>

datatype error = TypeError string | CannotReadProperty string | NoSuchArray nat

record token =
  type :: string
  val :: string

text \<open>\<^verbatim>\<open>xs[i]\<close> on an array or a string.\<close>

definition at :: "'a list \<Rightarrow> nat \<Rightarrow> 'a option" where
  "at xs i = (if i < length xs then Some (xs ! i) else None)"

text \<open>
  The conversion of a character or \<^verbatim>\<open>undefined\<close> to a string, which \<^verbatim>\<open>value += char\<close> and
  \<^verbatim>\<open>RegExp.test(char)\<close> both perform.
\<close>

definition String :: "char option \<Rightarrow> string" where
  "String ch = (case ch of None \<Rightarrow> ''undefined'' | Some c \<Rightarrow> [c])"

definition dquote :: char where
  "dquote = CHR 0x22"

text \<open>
  The three regular expressions. None is anchored, so \<^verbatim>\<open>test\<close> asks whether some character
  of the converted argument is in the class. The class \<^verbatim>\<open>\s\<close> has seven members below 256;
  \<^verbatim>\<open>/[a-z]/i\<close> has the 52 ASCII letters.
\<close>

definition WHITESPACE :: "char option \<Rightarrow> bool" where
  "WHITESPACE ch = (\<exists>c \<in> set (String ch).
     c \<in> set [CHR 0x09, CHR 0x0A, CHR 0x0B, CHR 0x0C, CHR 0x0D, CHR 0x20, CHR 0xA0])"

definition NUMBERS :: "char option \<Rightarrow> bool" where
  "NUMBERS ch = (\<exists>c \<in> set (String ch). c \<in> set ''0123456789'')"

definition LETTERS :: "char option \<Rightarrow> bool" where
  "LETTERS ch = (\<exists>c \<in> set (String ch).
     c \<in> set ''abcdefghijklmnopqrstuvwxyzABCDEFGHIJKLMNOPQRSTUVWXYZ'')"

subsection \<open>The tokenizer\<close>

text \<open>
  The three inner loops. At the head of each, \<^verbatim>\<open>char\<close> is \<^verbatim>\<open>input[current]\<close>; the loop
  returns the text it has collected and the cursor.

  \<^verbatim>\<open>while (NUMBERS.test(char)) { value += char; char = input[++current]; }\<close>
\<close>

function numbers_loop :: "string \<Rightarrow> nat \<Rightarrow> string \<Rightarrow> string \<times> nat" where
  "numbers_loop input current value =
     (let char = at input current in
      if NUMBERS char then numbers_loop input (current + 1) (value @ String char)
      else (value, current))"
  by pat_completeness auto
termination
  by (relation "measure (\<lambda>(input, current, value). length input - current)")
     (auto simp: NUMBERS_def String_def at_def split: if_splits)

text \<open>\<^verbatim>\<open>while (char !== '"') { value += char; char = input[++current]; }\<close>\<close>

partial_function (option) string_loop :: "string \<Rightarrow> nat \<Rightarrow> string \<Rightarrow> (string \<times> nat) option" where
  "string_loop input current value =
     (let char = at input current in
      if char \<noteq> Some dquote then string_loop input (current + 1) (value @ String char)
      else Some (value, current))"

text \<open>\<^verbatim>\<open>while (LETTERS.test(char)) { value += char; char = input[++current]; }\<close>\<close>

partial_function (option) letters_loop :: "string \<Rightarrow> nat \<Rightarrow> string \<Rightarrow> (string \<times> nat) option" where
  "letters_loop input current value =
     (let char = at input current in
      if LETTERS char then letters_loop input (current + 1) (value @ String char)
      else Some (value, current))"

text \<open>
  One pass through the body of the main loop, entered with \<^verbatim>\<open>current < input.length\<close>: it
  returns the cursor and the tokens at the next \<^verbatim>\<open>continue\<close>, or throws, or never returns.
\<close>

definition tokenizer_body :: "string \<Rightarrow> nat \<Rightarrow> token list \<Rightarrow> (error + nat \<times> token list) option" where
  "tokenizer_body input current tokens =
     (let char = at input current in
      if char = Some CHR ''('' then
        Some (Inr (current + 1, tokens @ [\<lparr>type = ''paren'', val = ''(''\<rparr>]))
      else if char = Some CHR '')'' then
        Some (Inr (current + 1, tokens @ [\<lparr>type = ''paren'', val = '')''\<rparr>]))
      else if WHITESPACE char then
        Some (Inr (current + 1, tokens))
      else if NUMBERS char then
        (case numbers_loop input current [] of
           (value, current') \<Rightarrow> Some (Inr (current', tokens @ [\<lparr>type = ''number'', val = value\<rparr>])))
      else if char = Some dquote then
        (case string_loop input (current + 1) [] of
           None \<Rightarrow> None
         | Some (value, current') \<Rightarrow>
             Some (Inr (current' + 1, tokens @ [\<lparr>type = ''string'', val = value\<rparr>])))
      else if LETTERS char then
        (case letters_loop input current [] of
           None \<Rightarrow> None
         | Some (value, current') \<Rightarrow>
             Some (Inr (current', tokens @ [\<lparr>type = ''name'', val = value\<rparr>])))
      else Some (Inl (TypeError (''I dont know what this character is: '' @ String char))))"

text \<open>\<^verbatim>\<open>while (current < input.length) { ... } return tokens;\<close>\<close>

partial_function (option) tokenizer_loop :: "string \<Rightarrow> nat \<Rightarrow> token list \<Rightarrow> (error + token list) option" where
  "tokenizer_loop input current tokens =
     (if current < length input then
        (case tokenizer_body input current tokens of
           None \<Rightarrow> None
         | Some (Inl e) \<Rightarrow> Some (Inl e)
         | Some (Inr (current', tokens')) \<Rightarrow> tokenizer_loop input current' tokens')
      else Some (Inr tokens))"

definition tokenizer :: "string \<Rightarrow> (error + token list) option" where
  "tokenizer input = tokenizer_loop input 0 []"

declare string_loop.simps [code] letters_loop.simps [code] tokenizer_loop.simps [code]
declare numbers_loop.simps [simp del]

subsection \<open>The parser\<close>

text \<open>
  The nodes of the tree the parser builds. The transformer later writes a property
  \<^verbatim>\<open>_context\<close>, a reference to an array of the new tree, into \<^verbatim>\<open>Program\<close> and
  \<^verbatim>\<open>CallExpression\<close> nodes: it is the last field of both, \<open>None\<close> while the property is
  absent. \<open>Other k\<close> is a node whose \<^verbatim>\<open>type\<close> is a string \<open>k\<close> other than the four.
\<close>

type_synonym addr = nat

datatype node =
    Program "node list" "addr option"
  | CallExpression (node_name: string) "node list" "addr option"
  | NumberLiteral (node_value: string)
  | StringLiteral (node_value: string)
  | Other string

text \<open>
  \<^verbatim>\<open>walk\<close> with the cursor \<^verbatim>\<open>current\<close> passed in and returned. \<open>walk_params\<close> is its
  \<^verbatim>\<open>while\<close> loop, entered at the test \<^verbatim>\<open>token.type !== 'paren' || ...\<close> with
  \<^verbatim>\<open>token = tokens[current]\<close>.
\<close>

function walk :: "token list \<Rightarrow> nat \<Rightarrow> error + node \<times> nat"
  and walk_params :: "token list \<Rightarrow> nat \<Rightarrow> node list \<Rightarrow> error + node list \<times> nat"
where
  "walk tokens current =
     (case at tokens current of
        None \<Rightarrow> Inl (CannotReadProperty ''type'')
      | Some token \<Rightarrow>
          if type token = ''number'' then Inr (NumberLiteral (val token), current + 1)
          else if type token = ''string'' then Inr (StringLiteral (val token), current + 1)
          else if type token = ''paren'' \<and> val token = ''('' then
            (case at tokens (current + 1) of
               None \<Rightarrow> Inl (CannotReadProperty ''value'')
             | Some token \<Rightarrow>
                 (case walk_params tokens (current + 2) [] of
                    Inl e \<Rightarrow> Inl e
                  | Inr (params, current') \<Rightarrow>
                      Inr (CallExpression (val token) params None, current' + 1)))
          else Inl (TypeError (type token)))"
| "walk_params tokens current params =
     (case at tokens current of
        None \<Rightarrow> Inl (CannotReadProperty ''type'')
      | Some token \<Rightarrow>
          if type token \<noteq> ''paren'' \<or> (type token = ''paren'' \<and> val token \<noteq> '')'') then
            (case walk tokens current of
               Inl e \<Rightarrow> Inl e
             | Inr (n, current') \<Rightarrow> walk_params tokens current' (params @ [n]))
          else Inr (params, current))"
  by pat_completeness auto

termination
proof -
  have progress:
    "(walk_walk_params_dom (Inl (tokens, current)) \<longrightarrow>
        (\<forall>n c'. walk tokens current = Inr (n, c') \<longrightarrow> current < c')) \<and>
     (walk_walk_params_dom (Inr (tokens, current, params)) \<longrightarrow>
        (\<forall>ps c'. walk_params tokens current params = Inr (ps, c') \<longrightarrow> current \<le> c'))"
    for tokens current params
  proof -
    have "walk_walk_params_dom (Inl (tokens, current)) \<Longrightarrow>
            walk tokens current = Inr (n, c') \<Longrightarrow> current < c'"
      and "walk_walk_params_dom (Inr (tokens, current, params)) \<Longrightarrow>
            walk_params tokens current params = Inr (ps, c') \<Longrightarrow> current \<le> c'"
      for n ps c'
    proof (induct tokens current and tokens current params arbitrary: n c' and ps c'
        rule: walk_walk_params.pinduct)
      case (1 tokens current)
      then show ?case
        by (fastforce simp: walk.psimps split: option.splits if_splits sum.splits prod.splits)
    next
      case (2 tokens current params)
      then show ?case
        by (fastforce simp: walk_params.psimps
            split: option.splits if_splits sum.splits prod.splits)
    qed
    then show ?thesis by blast
  qed
  then have step: "current < c'"
    if "walk_walk_params_dom (Inl (tokens, current))" and "walk tokens current = Inr (n, c')"
    for tokens current n c'
    using that by blast
  show ?thesis
    by (relation "measure (\<lambda>x. case x of
           Inl (tokens, current) \<Rightarrow> 2 * (length tokens - current) + 1
         | Inr (tokens, current, params) \<Rightarrow> 2 * (length tokens - current) + 2)")
       (auto simp: at_def split: if_splits dest!: step)
qed

declare walk.simps [simp del] walk_params.simps [simp del]

lemma walk_advances:
  "walk tokens current = Inr (n, c') \<Longrightarrow> current < c'"
  "walk_params tokens current params = Inr (ps, c') \<Longrightarrow> current \<le> c'"
proof (induct tokens current and tokens current params arbitrary: n c' and ps c'
    rule: walk_walk_params.induct)
  case (1 tokens current)
  then show ?case
    by (fastforce simp: walk.simps [of tokens current]
        split: option.splits if_splits sum.splits prod.splits)
next
  case (2 tokens current params)
  then show ?case
    by (fastforce simp: walk_params.simps [of tokens current params]
        split: option.splits if_splits sum.splits prod.splits)
qed

text \<open>\<^verbatim>\<open>while (current < tokens.length) { ast.body.push(walk()); }\<close>\<close>

function parser_loop :: "token list \<Rightarrow> nat \<Rightarrow> node list \<Rightarrow> error + node list" where
  "parser_loop tokens current body =
     (if current < length tokens then
        (case walk tokens current of
           Inl e \<Rightarrow> Inl e
         | Inr (n, current') \<Rightarrow> parser_loop tokens current' (body @ [n]))
      else Inr body)"
  by pat_completeness auto
termination
  by (relation "measure (\<lambda>(tokens, current, body). length tokens - current)")
     (auto dest: walk_advances(1))

declare parser_loop.simps [simp del]

definition parser :: "token list \<Rightarrow> error + node" where
  "parser tokens =
     (case parser_loop tokens 0 [] of Inl e \<Rightarrow> Inl e | Inr body \<Rightarrow> Inr (Program body None))"

subsection \<open>The traverser\<close>

fun node_type :: "node \<Rightarrow> string" where
  "node_type (Program body c) = ''Program''"
| "node_type (CallExpression name params c) = ''CallExpression''"
| "node_type (NumberLiteral v) = ''NumberLiteral''"
| "node_type (StringLiteral v) = ''StringLiteral''"
| "node_type (Other k) = k"

text \<open>Reading and writing \<^verbatim>\<open>node._context\<close>; reading an absent property gives \<^verbatim>\<open>undefined\<close>.\<close>

fun node_context :: "node \<Rightarrow> addr option" where
  "node_context (Program body c) = c"
| "node_context (CallExpression name params c) = c"
| "node_context n = None"

fun set_context :: "node \<Rightarrow> addr option \<Rightarrow> node" where
  "set_context (Program body c) c' = Program body c'"
| "set_context (CallExpression name params c) c' = CallExpression name params c'"
| "set_context n c' = n"

text \<open>
  A visitor maps the name of a node type to its methods, \<^verbatim>\<open>enter\<close> and \<^verbatim>\<open>exit\<close>, both
  optional. A method receives the node, its parent (\<open>None\<close> is \<^verbatim>\<open>null\<close>) and the state \<open>'s\<close> it
  works on; it throws, or it returns the node as it has left it and the new state. Methods
  here may write properties of the node but not replace its children, and they leave the
  parent object as it is: that is all the transformer's callbacks do.
\<close>

type_synonym 's callback = "node \<Rightarrow> node option \<Rightarrow> 's \<Rightarrow> error + node \<times> 's"

record 's callbacks =
  enter :: "'s callback option"
  exit :: "'s callback option"

type_synonym 's visitor = "string \<Rightarrow> 's callbacks option"

text \<open>\<^verbatim>\<open>if (methods && methods.enter) { methods.enter(node, parent); }\<close>, and the same for exit.\<close>

definition call_method :: "'s callback option \<Rightarrow> 's callback" where
  "call_method method node parent s =
     (case method of None \<Rightarrow> Inr (node, s) | Some f \<Rightarrow> f node parent s)"

text \<open>
  \<open>traverseChildren\<close> is the \<^verbatim>\<open>switch (node.type)\<close> of \<^verbatim>\<open>traverseNode\<close>; its third argument
  is the node after \<^verbatim>\<open>enter\<close>, which the children get as their parent. The
  \<^verbatim>\<open>console.log\<close> before a call of \<^verbatim>\<open>exit\<close> has no part in the result and is left out.
\<close>

fun traverseArray :: "'s visitor \<Rightarrow> node list \<Rightarrow> node option \<Rightarrow> 's \<Rightarrow> error + 's"
  and traverseNode :: "'s visitor \<Rightarrow> node \<Rightarrow> node option \<Rightarrow> 's \<Rightarrow> error + 's"
  and traverseChildren :: "'s visitor \<Rightarrow> node \<Rightarrow> node \<Rightarrow> 's \<Rightarrow> error + 's"
where
  "traverseArray visitor [] parent s = Inr s"
| "traverseArray visitor (child # array) parent s =
     (case traverseNode visitor child parent s of
        Inl e \<Rightarrow> Inl e
      | Inr s' \<Rightarrow> traverseArray visitor array parent s')"
| "traverseNode visitor node parent s =
     (let methods = visitor (node_type node) in
      case call_method (Option.bind methods enter) node parent s of
        Inl e \<Rightarrow> Inl e
      | Inr (node', s1) \<Rightarrow>
          (case traverseChildren visitor node node' s1 of
             Inl e \<Rightarrow> Inl e
           | Inr s2 \<Rightarrow>
               (case call_method (Option.bind methods exit) node' parent s2 of
                  Inl e \<Rightarrow> Inl e
                | Inr (node'', s3) \<Rightarrow> Inr s3)))"
| "traverseChildren visitor (Program body c) node' s =
     traverseArray visitor body (Some node') s"
| "traverseChildren visitor (CallExpression name params c) node' s =
     traverseArray visitor params (Some node') s"
| "traverseChildren visitor (NumberLiteral v) node' s = Inr s"
| "traverseChildren visitor (StringLiteral v) node' s = Inr s"
| "traverseChildren visitor (Other k) node' s = Inl (TypeError k)"

declare traverseNode.simps [simp del]

definition traverser :: "node \<Rightarrow> 's visitor \<Rightarrow> 's \<Rightarrow> error + 's" where
  "traverser ast visitor s = traverseNode visitor ast None s"

subsection \<open>The transformer\<close>

text \<open>
  The nodes of the new tree. Its arrays (the \<^verbatim>\<open>body\<close> of the program and the
  \<^verbatim>\<open>arguments\<close> of every call) are written to through the \<^verbatim>\<open>_context\<close> references of the
  old tree after the node that holds them has been built, so they live in a store and a node
  holds the address. The store is the list of the arrays made so far; a new array gets the
  next address. The objects themselves are never written to after they are built, and are
  values. \<open>Other' k\<close> is an object whose \<^verbatim>\<open>type\<close> is a string \<open>k\<close> other than the six.
\<close>

datatype node' =
    Program' addr
  | ExpressionStatement node'
  | CallExpression' node' addr
  | Identifier string
  | NumberLiteral' string
  | StringLiteral' string
  | Other' string

type_synonym store = "node' list list"

text \<open>\<^verbatim>\<open>array.push(x)\<close>, where \<^verbatim>\<open>array\<close> is the value of a \<^verbatim>\<open>_context\<close> property.\<close>

definition push :: "addr option \<Rightarrow> node' \<Rightarrow> store \<Rightarrow> error + store" where
  "push array x h =
     (case array of
        None \<Rightarrow> Inl (CannotReadProperty ''push'')
      | Some a \<Rightarrow> if a < length h then Inr (h[a := h ! a @ [x]]) else Inl (NoSuchArray a))"

definition NumberLiteral_enter :: "store callback" where
  "NumberLiteral_enter node parent h =
     (case parent of
        None \<Rightarrow> Inl (CannotReadProperty ''_context'')
      | Some p \<Rightarrow>
          (case push (node_context p) (NumberLiteral' (node_value node)) h of
             Inl e \<Rightarrow> Inl e
           | Inr h' \<Rightarrow> Inr (node, h')))"

definition StringLiteral_enter :: "store callback" where
  "StringLiteral_enter node parent h =
     (case parent of
        None \<Rightarrow> Inl (CannotReadProperty ''_context'')
      | Some p \<Rightarrow>
          (case push (node_context p) (StringLiteral' (node_value node)) h of
             Inl e \<Rightarrow> Inl e
           | Inr h' \<Rightarrow> Inr (node, h')))"

text \<open>
  The new call with its empty \<^verbatim>\<open>arguments\<close>, a new array; \<^verbatim>\<open>node._context\<close> is made to
  refer to it; the call is wrapped unless the parent is a call; the result is pushed to the
  parent's context.
\<close>

definition CallExpression_enter :: "store callback" where
  "CallExpression_enter node parent h =
     (let arguments = length h;
          h1 = h @ [[]];
          expression = CallExpression' (Identifier (node_name node)) arguments;
          node = set_context node (Some arguments)
      in case parent of
           None \<Rightarrow> Inl (CannotReadProperty ''type'')
         | Some p \<Rightarrow>
             let expression =
                   (if node_type p \<noteq> ''CallExpression'' then ExpressionStatement expression
                    else expression)
             in case push (node_context p) expression h1 of
                  Inl e \<Rightarrow> Inl e
                | Inr h2 \<Rightarrow> Inr (node, h2))"

definition transformer_visitor :: "store visitor" where
  "transformer_visitor =
     [''NumberLiteral'' \<mapsto> \<lparr>enter = Some NumberLiteral_enter, exit = None\<rparr>,
      ''StringLiteral'' \<mapsto> \<lparr>enter = Some StringLiteral_enter, exit = None\<rparr>,
      ''CallExpression'' \<mapsto> \<lparr>enter = Some CallExpression_enter, exit = None\<rparr>]"

text \<open>The result is the new program, a reference into the store, and the store.\<close>

definition transformer :: "node \<Rightarrow> error + node' \<times> store" where
  "transformer ast =
     (let body = 0;
          h = [[]];
          newAst = Program' body;
          ast = set_context ast (Some body)
      in case traverser ast transformer_visitor h of
           Inl e \<Rightarrow> Inl e
         | Inr h' \<Rightarrow> Inr (newAst, h'))"

subsection \<open>The code generator\<close>

text \<open>\<^verbatim>\<open>xs.join(sep)\<close> on an array of strings.\<close>

fun join :: "string list \<Rightarrow> string \<Rightarrow> string" where
  "join [] sep = []"
| "join [x] sep = x"
| "join (x # y # ys) sep = x @ sep @ join (y # ys) sep"

text \<open>
  \<open>and_then m k\<close> evaluates \<open>m\<close> and passes its value to \<open>k\<close>; if \<open>m\<close> throws or never
  returns, so does the whole. \<open>array_map\<close> is \<^verbatim>\<open>xs.map(f)\<close>, which calls \<open>f\<close> on the elements
  from left to right.
\<close>

definition and_then :: "(error + 'a) option \<Rightarrow> ('a \<Rightarrow> (error + 'b) option) \<Rightarrow> (error + 'b) option" where
  "and_then m k = Option.bind m (\<lambda>r. case r of Inl e \<Rightarrow> Some (Inl e) | Inr x \<Rightarrow> k x)"

fun array_map :: "('a \<Rightarrow> (error + 'b) option) \<Rightarrow> 'a list \<Rightarrow> (error + 'b list) option" where
  "array_map f [] = Some (Inr [])"
| "array_map f (x # xs) =
     and_then (f x) (\<lambda>y. and_then (array_map f xs) (\<lambda>ys. Some (Inr (y # ys))))"

lemma and_then_mono [partial_function_mono]:
  assumes "mono_option B" and "\<And>y. mono_option (\<lambda>f. C y f)"
  shows "mono_option (\<lambda>f. and_then (B f) (\<lambda>y. C y f))"
  unfolding and_then_def
proof (rule bind_mono [OF assms(1)])
  fix r :: "error + 'c"
  show "mono_option (\<lambda>f. case r of Inl e \<Rightarrow> Some (Inl e) | Inr x \<Rightarrow> C x f)"
    by (cases r) (simp_all add: option.const_mono assms(2))
qed

lemma array_map_mono [partial_function_mono]:
  assumes "\<And>x. mono_option (\<lambda>f. g f x)"
  shows "mono_option (\<lambda>f. array_map (g f) xs)"
proof (induct xs)
  case Nil
  show ?case by (simp add: option.const_mono)
next
  case (Cons x xs)
  show ?case
    unfolding array_map.simps
    by (intro and_then_mono assms Cons option.const_mono)
qed

text \<open>
  The recursion follows the references of the store, so it is a partial function: on a store
  with a cycle it would not return.
\<close>

partial_function (option) codeGenerator :: "store \<Rightarrow> node' \<Rightarrow> (error + string) option" where
  "codeGenerator h node =
     (case node of
        Program' body \<Rightarrow>
          (if body < length h then
             and_then (array_map (codeGenerator h) (h ! body))
               (\<lambda>lines. Some (Inr (join lines [CHR 0x0A])))
           else Some (Inl (NoSuchArray body)))
      | ExpressionStatement expression \<Rightarrow>
          and_then (codeGenerator h expression) (\<lambda>s. Some (Inr (s @ '';'')))
      | CallExpression' callee arguments \<Rightarrow>
          and_then (codeGenerator h callee)
            (\<lambda>s. if arguments < length h then
                   and_then (array_map (codeGenerator h) (h ! arguments))
                     (\<lambda>args. Some (Inr (s @ ''('' @ join args '', '' @ '')'')))
                 else Some (Inl (NoSuchArray arguments)))
      | Identifier name \<Rightarrow> Some (Inr name)
      | NumberLiteral' v \<Rightarrow> Some (Inr v)
      | StringLiteral' v \<Rightarrow> Some (Inr ([dquote] @ v @ [dquote]))
      | Other' k \<Rightarrow> Some (Inl (TypeError k)))"

declare codeGenerator.simps [code]

subsection \<open>The compiler\<close>

definition compiler :: "string \<Rightarrow> (error + string) option" where
  "compiler input =
     (case tokenizer input of
        None \<Rightarrow> None
      | Some (Inl e) \<Rightarrow> Some (Inl e)
      | Some (Inr tokens) \<Rightarrow>
          (case parser tokens of
             Inl e \<Rightarrow> Some (Inl e)
           | Inr ast \<Rightarrow>
               (case transformer ast of
                  Inl e \<Rightarrow> Some (Inl e)
                | Inr (newAst, h) \<Rightarrow> codeGenerator h newAst)))"

section \<open>The result of the pipeline as a function of the tree\<close>

text \<open>
  These definitions are not part of the program: they say, in closed form, what the
  transformer and the code generator compute on the trees of the parser, and the lemmas below
  prove that they do.

  \<open>expr\<close> holds of the nodes \<^verbatim>\<open>walk\<close> builds. \<open>allocs n\<close> is the number of arrays the
  transformer makes for \<open>n\<close>, one for each call. When the traversal enters \<open>n\<close> with \<open>l\<close>
  arrays in the store, \<open>new_node stmt l n\<close> is the node pushed to the context of the parent
  (\<open>stmt\<close> says that the parent is not a call) and \<open>arrays l n\<close> are the arrays the store
  has gained when the traversal leaves \<open>n\<close>, the first of them at the address \<open>l\<close>.
\<close>

fun expr :: "node \<Rightarrow> bool" where
  "expr (CallExpression name params c) = list_all expr params"
| "expr (NumberLiteral v) = True"
| "expr (StringLiteral v) = True"
| "expr (Program body c) = False"
| "expr (Other k) = False"

fun allocs :: "node \<Rightarrow> nat" where
  "allocs (CallExpression name params c) = Suc (sum_list (map allocs params))"
| "allocs n = 0"

fun new_node :: "bool \<Rightarrow> addr \<Rightarrow> node \<Rightarrow> node'" where
  "new_node stmt l (CallExpression name params c) =
     (if stmt then ExpressionStatement (CallExpression' (Identifier name) l)
      else CallExpression' (Identifier name) l)"
| "new_node stmt l (NumberLiteral v) = NumberLiteral' v"
| "new_node stmt l (StringLiteral v) = StringLiteral' v"
| "new_node stmt l n = Other' (node_type n)"

fun new_nodes :: "bool \<Rightarrow> addr \<Rightarrow> node list \<Rightarrow> node' list" where
  "new_nodes stmt l [] = []"
| "new_nodes stmt l (n # ns) = new_node stmt l n # new_nodes stmt (l + allocs n) ns"

fun arrays :: "addr \<Rightarrow> node \<Rightarrow> store"
  and arrays_list :: "addr \<Rightarrow> node list \<Rightarrow> store"
where
  "arrays l (CallExpression name params c) =
     new_nodes False (Suc l) params # arrays_list (Suc l) params"
| "arrays l (Program body c) = []"
| "arrays l (NumberLiteral v) = []"
| "arrays l (StringLiteral v) = []"
| "arrays l (Other k) = []"
| "arrays_list l [] = []"
| "arrays_list l (n # ns) = arrays l n @ arrays_list (l + allocs n) ns"

text \<open>The text of an expression, and of an element of the body of the program.\<close>

fun render :: "node \<Rightarrow> string" where
  "render (CallExpression name params c) = name @ ''('' @ join (map render params) '', '' @ '')''"
| "render (NumberLiteral v) = v"
| "render (StringLiteral v) = [dquote] @ v @ [dquote]"
| "render n = []"

fun statement :: "node \<Rightarrow> string" where
  "statement (CallExpression name params c) = render (CallExpression name params c) @ '';''"
| "statement n = render n"

section \<open>The pipeline on concrete programs\<close>

text \<open>
  C1. The nested call \<^verbatim>\<open>(add 2 (subtract 4 2))\<close> compiles to \<^verbatim>\<open>add(2, subtract(4, 2));\<close>:
  the callee, the arguments joined with a comma and a space, the nested call as an argument,
  and a semicolon after the top-level call only.
\<close>

theorem compiler_nested_call:
  "compiler ''(add 2 (subtract 4 2))'' = Some (Inr ''add(2, subtract(4, 2));'')"
  by code_simp

text \<open>
  C9. The parser returns a \<^verbatim>\<open>Program\<close> with an empty body for the empty token list, with
  no error, and the compiler returns the empty string for the empty input.
\<close>

theorem empty_input:
  "parser [] = Inr (Program [] None) \<and> compiler [] = Some (Inr [])"
  by code_simp

section \<open>End of input inside a token\<close>

text \<open>
  Past the end of the input \<^verbatim>\<open>char\<close> is \<^verbatim>\<open>undefined\<close>. The test \<^verbatim>\<open>LETTERS.test(char)\<close>
  converts it to the string \<^verbatim>\<open>undefined\<close>, which has letters, and \<^verbatim>\<open>char !== '"'\<close> holds of
  it: the loop of a name and the loop of a string go on from there. So each of them returns
  only if a character that stops it is still ahead.
\<close>

lemma LETTERS_undefined: "LETTERS None"
  by (simp add: LETTERS_def String_def)

lemma letters_loop_returns:
  assumes "letters_loop input current v = Some r"
  shows "\<exists>i. current \<le> i \<and> i < length input \<and> \<not> LETTERS (Some (input ! i))"
proof (rule letters_loop.raw_induct [where P = "\<lambda>input current v r.
    \<exists>i. current \<le> i \<and> i < length input \<and> \<not> LETTERS (Some (input ! i))", OF _ assms])
  fix loop input current v r
  assume IH: "\<And>input current v r. loop input current v = Some r \<Longrightarrow>
      \<exists>i. current \<le> i \<and> i < length input \<and> \<not> LETTERS (Some (input ! i))"
    and body: "(let char = at input current in
        if LETTERS char then loop input (current + 1) (v @ String char)
        else Some (v, current)) = Some r"
  show "\<exists>i. current \<le> i \<and> i < length input \<and> \<not> LETTERS (Some (input ! i))"
  proof (cases "LETTERS (at input current)")
    case True
    with body have "loop input (current + 1) (v @ String (at input current)) = Some r"
      by (simp add: Let_def)
    then obtain i where "current + 1 \<le> i" and "i < length input"
      and "\<not> LETTERS (Some (input ! i))"
      using IH by blast
    then show ?thesis
      by (intro exI [of _ i]) simp
  next
    case False
    then have "current < length input"
      using LETTERS_undefined by (auto simp: at_def split: if_splits)
    with False show ?thesis
      by (auto simp: at_def)
  qed
qed

lemma string_loop_returns:
  assumes "string_loop input current v = Some r"
  shows "\<exists>i. current \<le> i \<and> i < length input \<and> input ! i = dquote"
proof (rule string_loop.raw_induct [where P = "\<lambda>input current v r.
    \<exists>i. current \<le> i \<and> i < length input \<and> input ! i = dquote", OF _ assms])
  fix loop input current v r
  assume IH: "\<And>input current v r. loop input current v = Some r \<Longrightarrow>
      \<exists>i. current \<le> i \<and> i < length input \<and> input ! i = dquote"
    and body: "(let char = at input current in
        if char \<noteq> Some dquote then loop input (current + 1) (v @ String char)
        else Some (v, current)) = Some r"
  show "\<exists>i. current \<le> i \<and> i < length input \<and> input ! i = dquote"
  proof (cases "at input current = Some dquote")
    case False
    with body have "loop input (current + 1) (v @ String (at input current)) = Some r"
      by (simp add: Let_def)
    then obtain i where "current + 1 \<le> i" and "i < length input" and "input ! i = dquote"
      using IH by blast
    then show ?thesis
      by (intro exI [of _ i]) simp
  next
    case True
    then show ?thesis
      by (auto simp: at_def split: if_splits)
  qed
qed

text \<open>
  C7. The claim: the tokenizer returns on every input, and a run of letters, also one that
  reaches the end of the input, gives one name token. On the input \<^verbatim>\<open>a\<close> the tokenizer does
  not return.
\<close>

theorem name_at_end_of_input: "tokenizer ''a'' = None"
proof -
  have "letters_loop ''a'' 0 [] = None"
    using letters_loop_returns [of "''a''" 0 "[]"] by (cases "letters_loop ''a'' 0 []") (auto simp: LETTERS_def String_def)
  then have "tokenizer_body ''a'' 0 [] = None"
    by (simp add: tokenizer_body_def at_def WHITESPACE_def NUMBERS_def LETTERS_def String_def dquote_def)
  then show ?thesis
    by (simp add: tokenizer_def tokenizer_loop.simps [of "''a''" 0])
qed

text \<open>
  C5. The claim: a string literal that is not closed makes the tokenizer fail with an error.
  On the input of a double quote followed by \<^verbatim>\<open>a\<close> the tokenizer does not return.
\<close>

theorem unterminated_string: "tokenizer [dquote, CHR ''a''] = None"
proof -
  have "string_loop [dquote, CHR ''a''] 1 [] = None"
    using string_loop_returns [of "[dquote, CHR ''a'']" 1 "[]"] 
    by (cases "string_loop [dquote, CHR ''a''] 1 []") (auto simp: dquote_def less_Suc_eq)
  then have "tokenizer_body [dquote, CHR ''a''] 0 [] = None"
    by (simp add: tokenizer_body_def at_def WHITESPACE_def NUMBERS_def LETTERS_def String_def dquote_def)
  then show ?thesis
    by (simp add: tokenizer_def tokenizer_loop.simps [of _ 0])
qed

section \<open>The parser on token lists outside the grammar\<close>

text \<open>
  C6. The claim: tokens that end inside a call make the parser fail with an error of its own
  for the end of the tokens. On the tokens of \<^verbatim>\<open>(add 2\<close> the parser reads \<^verbatim>\<open>tokens[3]\<close>, which is
  \<^verbatim>\<open>undefined\<close>, and the host raises its exception for the property \<^verbatim>\<open>type\<close> of it.
\<close>

theorem end_of_tokens_in_call:
  "parser [\<lparr>type = ''paren'', val = ''(''\<rparr>, \<lparr>type = ''name'', val = ''add''\<rparr>,
           \<lparr>type = ''number'', val = ''2''\<rparr>] = Inl (CannotReadProperty ''type'')"
  by code_simp

text \<open>
  C4, as stated: a token other than a name after an opening parenthesis makes the parser
  fail. It does not: on the tokens of \<^verbatim>\<open>(2)\<close> the parser returns a call of the name \<^verbatim>\<open>2\<close>.
\<close>

theorem number_as_callee:
  "parser [\<lparr>type = ''paren'', val = ''(''\<rparr>, \<lparr>type = ''number'', val = ''2''\<rparr>,
           \<lparr>type = ''paren'', val = '')''\<rparr>] = Inr (Program [CallExpression ''2'' [] None] None)"
  by code_simp

text \<open>\<^verbatim>\<open>walk\<close> reads no token before the cursor.\<close>

lemma walk_suffix:
  "\<forall>i\<ge>current. at tokens i = at tokens' i \<Longrightarrow> walk tokens current = walk tokens' current"
  "\<forall>i\<ge>current. at tokens i = at tokens' i \<Longrightarrow>
     walk_params tokens current params = walk_params tokens' current params"
proof (induct tokens current and tokens current params rule: walk_walk_params.induct)
  case (1 tokens current)
  show ?case
  proof (cases "at tokens current")
    case None
    with 1(2) show ?thesis by (simp add: walk.simps [of _ current])
  next
    case (Some t)
    note t = this
    show ?thesis
    proof (cases "at tokens (current + 1)")
      case None
      with 1(2) t show ?thesis by (simp add: walk.simps [of _ current])
    next
      case (Some callee)
      have "walk_params tokens (current + 2) [] = walk_params tokens' (current + 2) []"
        if "type t \<noteq> ''number''" "type t \<noteq> ''string''" "type t = ''paren'' \<and> val t = ''(''"
        using 1(1) [OF t that Some] 1(2) by simp
      with 1(2) t Some show ?thesis
        by (simp add: walk.simps [of _ current])
    qed
  qed
next
  case (2 tokens current params)
  show ?case
  proof (cases "at tokens current")
    case None
    with 2(3) show ?thesis by (simp add: walk_params.simps [of _ current])
  next
    case (Some t)
    show ?thesis
    proof (cases "type t \<noteq> ''paren'' \<or> (type t = ''paren'' \<and> val t \<noteq> '')'')")
      case False
      with 2(3) Some show ?thesis by (simp add: walk_params.simps [of _ current])
    next
      case True
      have w: "walk tokens current = walk tokens' current"
        using 2(1) [OF Some True] 2(3) by simp
      show ?thesis
      proof (cases "walk tokens current")
        case (Inl e)
        moreover from Inl w have "walk tokens' current = Inl e" by simp
        ultimately show ?thesis
          using 2(3) Some True by (simp add: walk_params.simps [of _ current])
      next
        case (Inr r)
        obtain n c' where r: "r = (n, c')" by (cases r)
        have "current < c'" using walk_advances(1) Inr r by blast
        then have "walk_params tokens c' (params @ [n]) = walk_params tokens' c' (params @ [n])"
          using 2(2) [OF Some True Inr r [symmetric]] 2(3) by simp
        moreover from Inr w r have "walk tokens' current = Inr (n, c')" by simp
        ultimately show ?thesis
          using Inr r 2(3) Some True by (simp add: walk_params.simps [of _ current])
      qed
    qed
  qed
qed

text \<open>
  C4, amended. The parser does not look at the kind of the token after an opening
  parenthesis: \<^verbatim>\<open>walk\<close> at an opening parenthesis that some token follows returns what it
  returns when a name token of the same text stands in that token's place, and when the
  arguments are parsed the call has that text as its name.
\<close>

theorem callee_kind_unchecked:
  assumes "at tokens current = Some t" and "type t = ''paren'' \<and> val t = ''(''"
    and "at tokens (current + 1) = Some callee"
  shows "walk tokens current =
         walk (tokens[current + 1 := \<lparr>type = ''name'', val = val callee\<rparr>]) current \<and>
         (\<forall>params c'. walk_params tokens (current + 2) [] = Inr (params, c') \<longrightarrow>
            walk tokens current = Inr (CallExpression (val callee) params None, c' + 1))"
proof -
  let ?tokens' = "tokens[current + 1 := \<lparr>type = ''name'', val = val callee\<rparr>]"
  have "walk_params tokens (current + 2) [] = walk_params ?tokens' (current + 2) []"
    by (rule walk_suffix(2)) (simp add: at_def)
  moreover have "at ?tokens' current = Some t" 
    using assms(1) by (auto simp: at_def split: if_splits)
  moreover have "at ?tokens' (current + 1) = Some \<lparr>type = ''name'', val = val callee\<rparr>"
    using assms(3) by (auto simp: at_def split: if_splits)
  ultimately show ?thesis
    using assms by (simp add: walk.simps [of _ current] split: sum.splits prod.splits)
qed

theorem callee_kind_unchecked_witness:
  "at [\<lparr>type = ''paren'', val = ''(''\<rparr>, \<lparr>type = ''number'', val = ''2''\<rparr>,
       \<lparr>type = ''paren'', val = '')''\<rparr>] 0 = Some \<lparr>type = ''paren'', val = ''(''\<rparr> \<and>
   at [\<lparr>type = ''paren'', val = ''(''\<rparr>, \<lparr>type = ''number'', val = ''2''\<rparr>,
       \<lparr>type = ''paren'', val = '')''\<rparr>] (0 + 1) = Some \<lparr>type = ''number'', val = ''2''\<rparr> \<and>
   walk_params [\<lparr>type = ''paren'', val = ''(''\<rparr>, \<lparr>type = ''number'', val = ''2''\<rparr>,
       \<lparr>type = ''paren'', val = '')''\<rparr>] (0 + 2) [] = Inr ([], 2) \<and>
   walk [\<lparr>type = ''paren'', val = ''(''\<rparr>, \<lparr>type = ''number'', val = ''2''\<rparr>,
       \<lparr>type = ''paren'', val = '')''\<rparr>] 0 =
   walk [\<lparr>type = ''paren'', val = ''(''\<rparr>, \<lparr>type = ''name'', val = ''2''\<rparr>,
       \<lparr>type = ''paren'', val = '')''\<rparr>] 0 \<and>
   walk [\<lparr>type = ''paren'', val = ''(''\<rparr>, \<lparr>type = ''number'', val = ''2''\<rparr>,
       \<lparr>type = ''paren'', val = '')''\<rparr>] 0 = Inr (CallExpression ''2'' [] None, 3)"
proof -
  let ?tokens = "[\<lparr>type = ''paren'', val = ''(''\<rparr>, \<lparr>type = ''number'', val = ''2''\<rparr>,
       \<lparr>type = ''paren'', val = '')''\<rparr>]"
  have 1: "at ?tokens 0 = Some \<lparr>type = ''paren'', val = ''(''\<rparr>"
    and 2: "at ?tokens (0 + 1) = Some \<lparr>type = ''number'', val = ''2''\<rparr>"
    by (simp_all add: at_def)
  have 3: "walk_params ?tokens (0 + 2) [] = Inr ([], 2)"
    by code_simp
  show ?thesis
    using callee_kind_unchecked [OF 1 _ 2] 1 2 3 by auto
qed

section \<open>The transformer and the code generator on the trees of the parser\<close>

subsection \<open>What the traversal does to the store\<close>

lemma length_arrays:
  "length (arrays l n) = allocs n"
  "length (arrays_list l ns) = sum_list (map allocs ns)"
  by (induct l n and l ns rule: arrays_arrays_list.induct) simp_all

lemma visitor_simps:
  "transformer_visitor ''Program'' = None"
  "transformer_visitor ''CallExpression'' = Some \<lparr>enter = Some CallExpression_enter, exit = None\<rparr>"
  "transformer_visitor ''NumberLiteral'' = Some \<lparr>enter = Some NumberLiteral_enter, exit = None\<rparr>"
  "transformer_visitor ''StringLiteral'' = Some \<lparr>enter = Some StringLiteral_enter, exit = None\<rparr>"
  by (simp_all add: transformer_visitor_def)

lemma traverseArray_transformer:
  assumes "\<And>n h. n \<in> set ns \<Longrightarrow> a < length h \<Longrightarrow>
      traverseNode transformer_visitor n (Some p) h =
        Inr (h[a := h ! a @ [new_node stmt (length h) n]] @ arrays (length h) n)"
    and "a < length h"
  shows "traverseArray transformer_visitor ns (Some p) h =
           Inr (h[a := h ! a @ new_nodes stmt (length h) ns] @ arrays_list (length h) ns)"
  using assms
proof (induct ns arbitrary: h)
  case Nil
  then show ?case by simp
next
  case (Cons n ns)
  let ?h' = "h[a := h ! a @ [new_node stmt (length h) n]] @ arrays (length h) n"
  have 1: "traverseNode transformer_visitor n (Some p) h = Inr ?h'"
    using Cons.prems by simp
  have 2: "a < length ?h'" using Cons.prems(2) by simp
  have 3: "traverseArray transformer_visitor ns (Some p) ?h' =
      Inr (?h'[a := ?h' ! a @ new_nodes stmt (length ?h') ns] @ arrays_list (length ?h') ns)"
    using Cons.hyps [OF _ 2] Cons.prems(1) by simp
  have 4: "length ?h' = length h + allocs n"
    by (simp add: length_arrays)
  have 5: "?h'[a := ?h' ! a @ new_nodes stmt (length h + allocs n) ns] =
     h[a := h ! a @ new_nodes stmt (length h) (n # ns)] @ arrays (length h) n"
    using Cons.prems(2) by (simp add: length_arrays list_update_append nth_append)
  have "traverseArray transformer_visitor (n # ns) (Some p) h =
      traverseArray transformer_visitor ns (Some p) ?h'"
    by (simp add: 1)
  also note 3
  also have "?h'[a := ?h' ! a @ new_nodes stmt (length ?h') ns] @ arrays_list (length ?h') ns =
      h[a := h ! a @ new_nodes stmt (length h) (n # ns)] @ arrays_list (length h) (n # ns)"
    unfolding 4 5 by simp
  finally show ?case .
qed

lemma traverseNode_transformer:
  assumes "expr n" and "node_context p = Some a" and "a < length h"
    and "stmt = (node_type p \<noteq> ''CallExpression'')"
  shows "traverseNode transformer_visitor n (Some p) h =
           Inr (h[a := h ! a @ [new_node stmt (length h) n]] @ arrays (length h) n)"
  using assms
proof (induct n arbitrary: p a h stmt)
  case (Program body c)
  then show ?case by simp
next
  case (CallExpression name params c)
  let ?l = "length h"
  let ?e = "new_node stmt ?l (CallExpression name params c)"
  let ?n' = "CallExpression name params (Some ?l)"
  let ?h1 = "h[a := h ! a @ [?e]] @ [[]]"
  have enter: "CallExpression_enter (CallExpression name params c) (Some p) h = Inr (?n', ?h1)"
    using CallExpression.prems
    by (auto simp: CallExpression_enter_def push_def Let_def nth_append list_update_append)
  have "traverseArray transformer_visitor params (Some ?n') ?h1 =
      Inr (?h1[?l := ?h1 ! ?l @ new_nodes False (length ?h1) params]
            @ arrays_list (length ?h1) params)"
  proof (rule traverseArray_transformer)
    fix m and h' :: store
    assume "m \<in> set params" and "?l < length h'"
    then show "traverseNode transformer_visitor m (Some ?n') h' =
        Inr (h'[?l := h' ! ?l @ [new_node False (length h') m]] @ arrays (length h') m)"
      using CallExpression.hyps [of m ?n' ?l h' False] CallExpression.prems(1)
      by (simp add: list_all_iff)
  qed simp
  moreover have "?h1[?l := ?h1 ! ?l @ new_nodes False (length ?h1) params] =
      h[a := h ! a @ [?e]] @ [new_nodes False (Suc ?l) params]"
    by (simp add: list_update_append nth_append)
  ultimately have children: "traverseArray transformer_visitor params (Some ?n') ?h1 =
      Inr (h[a := h ! a @ [?e]] @ arrays ?l (CallExpression name params c))"
    by simp
  show ?case
    by (simp add: traverseNode.simps visitor_simps call_method_def enter children
        del: arrays.simps new_node.simps)
next
  case (NumberLiteral v)
  then show ?case
    by (simp add: traverseNode.simps visitor_simps call_method_def NumberLiteral_enter_def push_def)
next
  case (StringLiteral v)
  then show ?case
    by (simp add: traverseNode.simps visitor_simps call_method_def StringLiteral_enter_def push_def)
next
  case (Other k)
  then show ?case by simp
qed

subsection \<open>The trees of the parser\<close>

lemma walk_expr:
  "walk tokens current = Inr (n, c') \<Longrightarrow> expr n"
  "walk_params tokens current params = Inr (ps, c') \<Longrightarrow> list_all expr params \<Longrightarrow>
     list_all expr ps"
proof (induct tokens current and tokens current params arbitrary: n c' and ps c'
    rule: walk_walk_params.induct)
  case (1 tokens current)
  then show ?case
    by (fastforce simp: walk.simps [of tokens current]
        split: option.splits if_splits sum.splits prod.splits)
next
  case (2 tokens current params)
  then show ?case
    by (fastforce simp: walk_params.simps [of tokens current params]
        split: option.splits if_splits sum.splits prod.splits)
qed

lemma parser_loop_expr:
  "parser_loop tokens current body = Inr body' \<Longrightarrow> list_all expr body \<Longrightarrow>
     list_all expr body'"
proof (induct tokens current body rule: parser_loop.induct)
  case (1 tokens current body)
  then show ?case
    by (fastforce simp: parser_loop.simps [of tokens current body] dest: walk_expr(1)
        split: if_splits sum.splits prod.splits)
qed

lemma parser_program:
  assumes "parser tokens = Inr ast"
  obtains body where "ast = Program body None" and "list_all expr body"
  using assms parser_loop_expr [of tokens 0 "[]"]
  by (auto simp: parser_def split: sum.splits)

lemma transformer_program:
  assumes "list_all expr body"
  shows "transformer (Program body c) =
           Inr (Program' 0, new_nodes True (Suc 0) body # arrays_list (Suc 0) body)"
proof -
  let ?p = "Program body (Some 0)"
  have "traverseArray transformer_visitor body (Some ?p) [[]] =
      Inr ([[]][0 := [[]] ! 0 @ new_nodes True (length [[]::node' list]) body]
            @ arrays_list (length [[]::node' list]) body)"
  proof (rule traverseArray_transformer)
    fix n and h :: store
    assume "n \<in> set body" and "0 < length h"
    then show "traverseNode transformer_visitor n (Some ?p) h =
        Inr (h[0 := h ! 0 @ [new_node True (length h) n]] @ arrays (length h) n)"
      using assms by (intro traverseNode_transformer) (simp_all add: list_all_iff)
  qed simp
  then show ?thesis
    by (simp add: transformer_def traverser_def traverseNode.simps visitor_simps call_method_def)
qed

subsection \<open>The code generator on the store the transformer leaves\<close>

lemma and_then_simps [simp]:
  "and_then (Some (Inr x)) k = k x"
  "and_then (Some (Inl e)) k = Some (Inl e)"
  "and_then None k = None"
  by (simp_all add: and_then_def)

lemma array_map_codeGenerator:
  assumes "\<And>n pre post. n \<in> set ns \<Longrightarrow> h = pre @ arrays (length pre) n @ post \<Longrightarrow>
      codeGenerator h (new_node stmt (length pre) n) =
        Some (Inr (if stmt then statement n else render n))"
    and "h = pre @ arrays_list (length pre) ns @ post"
  shows "array_map (codeGenerator h) (new_nodes stmt (length pre) ns) =
           Some (Inr (map (if stmt then statement else render) ns))"
  using assms
proof (induct ns arbitrary: pre post)
  case Nil
  then show ?case by simp
next
  case (Cons n ns)
  have 1: "codeGenerator h (new_node stmt (length pre) n) =
      Some (Inr (if stmt then statement n else render n))"
  proof (rule Cons.prems(1))
    show "h = pre @ arrays (length pre) n @ arrays_list (length pre + allocs n) ns @ post"
      using Cons.prems(2) by simp
  qed simp
  have "array_map (codeGenerator h) (new_nodes stmt (length (pre @ arrays (length pre) n)) ns) =
      Some (Inr (map (if stmt then statement else render) ns))"
  proof (rule Cons.hyps)
    show "h = (pre @ arrays (length pre) n) @
        arrays_list (length (pre @ arrays (length pre) n)) ns @ post"
      using Cons.prems(2) by (simp add: length_arrays)
  next
    fix m pre' post'
    assume "m \<in> set ns" and *: "h = pre' @ arrays (length pre') m @ post'"
    then have "m \<in> set (n # ns)" by simp
    then show "codeGenerator h (new_node stmt (length pre') m) =
        Some (Inr (if stmt then statement m else render m))"
      using * by (rule Cons.prems(1))
  qed
  then have 2: "array_map (codeGenerator h) (new_nodes stmt (length pre + allocs n) ns) =
      Some (Inr (map (if stmt then statement else render) ns))"
    by (simp add: length_arrays)
  show ?case
    by (simp add: 1 2)
qed

lemma codeGenerator_new_node:
  assumes "expr n" and "h = pre @ arrays (length pre) n @ post"
  shows "codeGenerator h (new_node stmt (length pre) n) =
           Some (Inr (if stmt then statement n else render n))"
  using assms
proof (induct n arbitrary: pre post stmt)
  case (Program body c)
  then show ?case by simp
next
  case (CallExpression name params c)
  let ?l = "length pre"
  let ?args = "new_nodes False (Suc ?l) params"
  have h: "h = (pre @ [?args]) @ arrays_list (length (pre @ [?args])) params @ post"
    using CallExpression.prems(2) by simp
  have "array_map (codeGenerator h) (new_nodes False (length (pre @ [?args])) params) =
      Some (Inr (map (if False then statement else render) params))"
  proof (rule array_map_codeGenerator [OF _ h])
    fix m pre' post'
    assume "m \<in> set params" and "h = pre' @ arrays (length pre') m @ post'"
    then show "codeGenerator h (new_node False (length pre') m) =
        Some (Inr (if False then statement m else render m))"
      using CallExpression.hyps [of m pre' post' False] CallExpression.prems(1)
      by (simp add: list_all_iff)
  qed
  then have args: "array_map (codeGenerator h) ?args = Some (Inr (map render params))"
    by simp
  have at_l: "h ! ?l = ?args" and len: "?l < length h"
    using CallExpression.prems(2) by (simp_all add: nth_append)
  have call: "codeGenerator h (CallExpression' (Identifier name) ?l) =
      Some (Inr (render (CallExpression name params c)))"
    by (subst codeGenerator.simps, subst codeGenerator.simps) (simp add: args at_l len)
  show ?case
  proof (cases stmt)
    case True
    then show ?thesis
      by (subst codeGenerator.simps) (simp add: call)
  next
    case False
    then show ?thesis by (simp add: call)
  qed
next
  case (NumberLiteral v)
  then show ?case by (subst codeGenerator.simps) simp
next
  case (StringLiteral v)
  then show ?case by (subst codeGenerator.simps) simp
next
  case (Other k)
  then show ?case by simp
qed

lemma codeGenerator_program:
  assumes "list_all expr body"
  shows "codeGenerator (new_nodes True (Suc 0) body # arrays_list (Suc 0) body) (Program' 0) =
           Some (Inr (join (map statement body) [CHR 0x0A]))"
proof -
  let ?h = "new_nodes True (Suc 0) body # arrays_list (Suc 0) body"
  have h: "?h = [new_nodes True (Suc 0) body] @ arrays_list (length [new_nodes True (Suc 0) body]) body @ []"
    by simp
  have "array_map (codeGenerator ?h) (new_nodes True (length [new_nodes True (Suc 0) body]) body) =
      Some (Inr (map (if True then statement else render) body))"
  proof (rule array_map_codeGenerator [OF _ h])
    fix n pre post
    assume "n \<in> set body" and "?h = pre @ arrays (length pre) n @ post"
    then show "codeGenerator ?h (new_node True (length pre) n) =
        Some (Inr (if True then statement n else render n))"
      using assms by (intro codeGenerator_new_node) (simp_all add: list_all_iff)
  qed
  then show ?thesis
    by (subst codeGenerator.simps) simp
qed

text \<open>The output of the compiler, whenever the tokenizer and the parser return.\<close>

lemma compiler_output:
  assumes "tokenizer input = Some (Inr tokens)" and "parser tokens = Inr (Program body c)"
  shows "compiler input = Some (Inr (join (map statement body) [CHR 0x0A]))"
proof -
  from assms(2) have "list_all expr body"
    by (auto elim: parser_program)
  then show ?thesis
    using assms by (simp add: compiler_def transformer_program codeGenerator_program)
qed

text \<open>
  C2. Whenever the tokenizer returns tokens and the parser returns a tree for them, the
  transformer returns a new tree and the code generator returns a string for it, which is
  the result of the compiler: neither the \<^verbatim>\<open>default\<close> branch of the traverser nor that of the
  code generator is taken, and no method of the visitor throws.
\<close>

theorem after_parse_no_failure:
  assumes "tokenizer input = Some (Inr tokens)" and "parser tokens = Inr ast"
  shows "\<exists>newAst h output. transformer ast = Inr (newAst, h) \<and>
           codeGenerator h newAst = Some (Inr output) \<and> compiler input = Some (Inr output)"
proof -
  from assms(2) obtain body where ast: "ast = Program body None" and body: "list_all expr body"
    by (rule parser_program)
  show ?thesis
    using assms body unfolding ast
    by (simp add: compiler_def transformer_program codeGenerator_program)
qed

theorem after_parse_no_failure_witness:
  "tokenizer ''(add 2 2)'' =
     Some (Inr [\<lparr>type = ''paren'', val = ''(''\<rparr>, \<lparr>type = ''name'', val = ''add''\<rparr>,
                \<lparr>type = ''number'', val = ''2''\<rparr>, \<lparr>type = ''number'', val = ''2''\<rparr>,
                \<lparr>type = ''paren'', val = '')''\<rparr>]) \<and>
   parser [\<lparr>type = ''paren'', val = ''(''\<rparr>, \<lparr>type = ''name'', val = ''add''\<rparr>,
           \<lparr>type = ''number'', val = ''2''\<rparr>, \<lparr>type = ''number'', val = ''2''\<rparr>,
           \<lparr>type = ''paren'', val = '')''\<rparr>] =
     Inr (Program [CallExpression ''add'' [NumberLiteral ''2'', NumberLiteral ''2''] None] None) \<and>
   (\<exists>newAst h output.
      transformer (Program [CallExpression ''add'' [NumberLiteral ''2'', NumberLiteral ''2''] None]
        None) = Inr (newAst, h) \<and>
      codeGenerator h newAst = Some (Inr output) \<and>
      compiler ''(add 2 2)'' = Some (Inr output))"
proof -
  let ?tokens = "[\<lparr>type = ''paren'', val = ''(''\<rparr>, \<lparr>type = ''name'', val = ''add''\<rparr>,
           \<lparr>type = ''number'', val = ''2''\<rparr>, \<lparr>type = ''number'', val = ''2''\<rparr>,
           \<lparr>type = ''paren'', val = '')''\<rparr>]"
  have t: "tokenizer ''(add 2 2)'' = Some (Inr ?tokens)"
    by code_simp
  have p: "parser ?tokens =
      Inr (Program [CallExpression ''add'' [NumberLiteral ''2'', NumberLiteral ''2''] None] None)"
    by code_simp
  from after_parse_no_failure [OF t p] t p show ?thesis
    by (intro conjI)
qed

subsection \<open>Where the statements are\<close>

lemma length_new_nodes: "length (new_nodes stmt l ns) = length ns"
  by (induct ns arbitrary: l) simp_all

lemma nth_new_nodes:
  "i < length ns \<Longrightarrow>
     new_nodes stmt l ns ! i = new_node stmt (l + sum_list (map allocs (take i ns))) (ns ! i)"
proof (induct ns arbitrary: l i)
  case Nil
  then show ?case by simp
next
  case (Cons n ns)
  then show ?case by (cases i) (simp_all add: add.assoc)
qed

lemma sum_allocs_take:
  "i < length ns \<Longrightarrow> sum_list (map allocs (take i ns)) + allocs (ns ! i) \<le> sum_list (map allocs ns)"
proof (induct ns arbitrary: i)
  case Nil
  then show ?case by simp
next
  case (Cons n ns)
  then show ?case by (cases i) (simp_all add: add.assoc)
qed

lemma new_nodes_unwrapped:
  "x \<in> set (new_nodes False l ns) \<Longrightarrow> x \<noteq> ExpressionStatement e"
proof (induct ns arbitrary: l)
  case Nil
  then show ?case by simp
next
  case (Cons n ns)
  then show ?case by (cases n) auto
qed

lemma new_nodes_address:
  assumes "x \<in> set (new_nodes stmt l ns)"
    and "x = CallExpression' callee a \<or> x = ExpressionStatement (CallExpression' callee a)"
  shows "l \<le> a \<and> a < l + sum_list (map allocs ns)"
  using assms
proof (induct ns arbitrary: l)
  case Nil
  then show ?case by simp
next
  case (Cons n ns)
  from Cons.prems(1) consider "x = new_node stmt l n" | "x \<in> set (new_nodes stmt (l + allocs n) ns)"
    by auto
  then show ?case
  proof cases
    case 1
    with Cons.prems(2) show ?thesis by (cases n) (auto split: if_splits)
  next
    case 2
    from Cons.hyps [OF this Cons.prems(2)] show ?thesis by simp
  qed
qed

lemma arrays_contents:
  "arr \<in> set (arrays l n) \<Longrightarrow> x \<in> set arr \<Longrightarrow>
     (\<forall>e. x \<noteq> ExpressionStatement e) \<and>
     (\<forall>callee a. x = CallExpression' callee a \<longrightarrow> l < a \<and> a < l + allocs n)"
  "arr \<in> set (arrays_list l ns) \<Longrightarrow> x \<in> set arr \<Longrightarrow>
     (\<forall>e. x \<noteq> ExpressionStatement e) \<and>
     (\<forall>callee a. x = CallExpression' callee a \<longrightarrow> l < a \<and> a < l + sum_list (map allocs ns))"
proof (induct l n and l ns arbitrary: arr x and arr x rule: arrays_arrays_list.induct)
  case (1 l name params c)
  from "1.prems"(1) consider "arr = new_nodes False (Suc l) params"
    | "arr \<in> set (arrays_list (Suc l) params)"
    by auto
  then show ?case
  proof cases
    case 1
    with "1.prems"(2) show ?thesis
      using new_nodes_unwrapped [of x "Suc l" params]
        new_nodes_address [of x False "Suc l" params]
      by fastforce
  next
    case 2
    from "1.hyps" [OF this "1.prems"(2)] show ?thesis by auto
  qed
next
  case (7 l n ns)
  from "7.prems"(1) consider "arr \<in> set (arrays l n)"
    | "arr \<in> set (arrays_list (l + allocs n) ns)"
    by auto
  then show ?case
  proof cases
    case 1
    from "7.hyps"(1) [OF this "7.prems"(2)] show ?thesis by auto
  next
    case 2
    from "7.hyps"(2) [OF this "7.prems"(2)] show ?thesis by auto
  qed
qed simp_all

text \<open>
  C3. For the tree \<open>ast\<close> of the parser the transformer returns the new program, whose body
  is the array at the address 0 of the store \<open>h\<close>, and
  \<^item> the body has one element for each element of the body of \<open>ast\<close>, in the same order, and
    the element for a call is an \<^verbatim>\<open>ExpressionStatement\<close> whose expression is the new call
    itself: one wrapper, not more;
  \<^item> for every call in the store, wrapped or not, its \<^verbatim>\<open>arguments\<close> are an array of the
    store other than the body, and no element of that array is an \<^verbatim>\<open>ExpressionStatement\<close>.
\<close>

theorem statement_wrapping:
  assumes "parser tokens = Inr ast"
  shows "\<exists>body h. ast = Program body None \<and> transformer ast = Inr (Program' 0, h) \<and>
           0 < length h \<and> length (h ! 0) = length body \<and>
           (\<forall>i < length body. \<forall>name params c. body ! i = CallExpression name params c \<longrightarrow>
              (\<exists>a. 0 < a \<and> a < length h \<and>
                 h ! 0 ! i = ExpressionStatement (CallExpression' (Identifier name) a))) \<and>
           (\<forall>b < length h. \<forall>x \<in> set (h ! b). \<forall>callee a.
              x = CallExpression' callee a \<or> x = ExpressionStatement (CallExpression' callee a) \<longrightarrow>
              0 < a \<and> a < length h \<and> (\<forall>y \<in> set (h ! a). \<forall>e. y \<noteq> ExpressionStatement e))"
proof -
  from assms obtain body where ast: "ast = Program body None" and body: "list_all expr body"
    by (rule parser_program)
  let ?h = "new_nodes True (Suc 0) body # arrays_list (Suc 0) body"
  have len: "length ?h = Suc (sum_list (map allocs body))"
    by (simp add: length_arrays)
  have tr: "transformer ast = Inr (Program' 0, ?h)"
    unfolding ast using body by (rule transformer_program)
  have top: "\<exists>a. 0 < a \<and> a < length ?h \<and>
      ?h ! 0 ! i = ExpressionStatement (CallExpression' (Identifier name) a)"
    if "i < length body" and "body ! i = CallExpression name params c" for i name params c
  proof -
    let ?a = "Suc 0 + sum_list (map allocs (take i body))"
    have "?h ! 0 ! i = ExpressionStatement (CallExpression' (Identifier name) ?a)"
      using that by (simp add: nth_new_nodes)
    moreover have "?a < length ?h"
      using sum_allocs_take [OF that(1)] that(2) by (simp add: length_arrays)
    ultimately show ?thesis by (intro exI [of _ ?a]) simp
  qed
  have inner: "\<forall>e. y \<noteq> ExpressionStatement e" if "0 < a" and "a < length ?h" and "y \<in> set (?h ! a)"
    for a y
  proof -
    from that(1,2) have "?h ! a \<in> set (arrays_list (Suc 0) body)"
      by (cases a) simp_all
    from arrays_contents(2) [OF this that(3)] show ?thesis by blast
  qed
  have addr: "0 < a \<and> a < length ?h"
    if "b < length ?h" and "x \<in> set (?h ! b)"
      and "x = CallExpression' callee a \<or> x = ExpressionStatement (CallExpression' callee a)"
    for b x callee a
  proof (cases b)
    case 0
    with that(2) have "x \<in> set (new_nodes True (Suc 0) body)" by simp
    from new_nodes_address [OF this that(3)] show ?thesis by (simp add: length_arrays)
  next
    case (Suc b')
    with that(1) have "?h ! b \<in> set (arrays_list (Suc 0) body)" by simp
    from arrays_contents(2) [OF this that(2)] that(3) show ?thesis by (auto simp: length_arrays)
  qed
  show ?thesis
  proof (intro exI conjI)
    show "ast = Program body None" by (rule ast)
    show "transformer ast = Inr (Program' 0, ?h)" by (rule tr)
    show "0 < length ?h" by simp
    show "length (?h ! 0) = length body" by (simp add: length_new_nodes)
    show "\<forall>i < length body. \<forall>name params c. body ! i = CallExpression name params c \<longrightarrow>
        (\<exists>a. 0 < a \<and> a < length ?h \<and>
           ?h ! 0 ! i = ExpressionStatement (CallExpression' (Identifier name) a))"
      using top by blast
    show "\<forall>b < length ?h. \<forall>x \<in> set (?h ! b). \<forall>callee a.
        x = CallExpression' callee a \<or> x = ExpressionStatement (CallExpression' callee a) \<longrightarrow>
        0 < a \<and> a < length ?h \<and> (\<forall>y \<in> set (?h ! a). \<forall>e. y \<noteq> ExpressionStatement e)"
      using addr inner by blast
  qed
qed

theorem statement_wrapping_witness:
  "parser [\<lparr>type = ''paren'', val = ''(''\<rparr>, \<lparr>type = ''name'', val = ''add''\<rparr>,
           \<lparr>type = ''number'', val = ''2''\<rparr>, \<lparr>type = ''paren'', val = ''(''\<rparr>,
           \<lparr>type = ''name'', val = ''subtract''\<rparr>, \<lparr>type = ''number'', val = ''4''\<rparr>,
           \<lparr>type = ''number'', val = ''2''\<rparr>, \<lparr>type = ''paren'', val = '')''\<rparr>,
           \<lparr>type = ''paren'', val = '')''\<rparr>] =
     Inr (Program [CallExpression ''add'' [NumberLiteral ''2'',
            CallExpression ''subtract'' [NumberLiteral ''4'', NumberLiteral ''2''] None] None] None) \<and>
   transformer (Program [CallExpression ''add'' [NumberLiteral ''2'',
            CallExpression ''subtract'' [NumberLiteral ''4'', NumberLiteral ''2''] None] None] None) =
     Inr (Program' 0,
          [[ExpressionStatement (CallExpression' (Identifier ''add'') 1)],
           [NumberLiteral' ''2'', CallExpression' (Identifier ''subtract'') 2],
           [NumberLiteral' ''4'', NumberLiteral' ''2'']]) \<and>
   (\<exists>body h.
      Program [CallExpression ''add'' [NumberLiteral ''2'',
        CallExpression ''subtract'' [NumberLiteral ''4'', NumberLiteral ''2''] None] None] None =
        Program body None \<and>
      transformer (Program [CallExpression ''add'' [NumberLiteral ''2'',
        CallExpression ''subtract'' [NumberLiteral ''4'', NumberLiteral ''2''] None] None] None) =
        Inr (Program' 0, h) \<and>
      0 < length h \<and> length (h ! 0) = length body \<and>
      (\<forall>i < length body. \<forall>name params c. body ! i = CallExpression name params c \<longrightarrow>
         (\<exists>a. 0 < a \<and> a < length h \<and>
            h ! 0 ! i = ExpressionStatement (CallExpression' (Identifier name) a))) \<and>
      (\<forall>b < length h. \<forall>x \<in> set (h ! b). \<forall>callee a.
         x = CallExpression' callee a \<or> x = ExpressionStatement (CallExpression' callee a) \<longrightarrow>
         0 < a \<and> a < length h \<and> (\<forall>y \<in> set (h ! a). \<forall>e. y \<noteq> ExpressionStatement e)))"
proof -
  let ?tokens = "[\<lparr>type = ''paren'', val = ''(''\<rparr>, \<lparr>type = ''name'', val = ''add''\<rparr>,
           \<lparr>type = ''number'', val = ''2''\<rparr>, \<lparr>type = ''paren'', val = ''(''\<rparr>,
           \<lparr>type = ''name'', val = ''subtract''\<rparr>, \<lparr>type = ''number'', val = ''4''\<rparr>,
           \<lparr>type = ''number'', val = ''2''\<rparr>, \<lparr>type = ''paren'', val = '')''\<rparr>,
           \<lparr>type = ''paren'', val = '')''\<rparr>]"
  let ?ast = "Program [CallExpression ''add'' [NumberLiteral ''2'',
            CallExpression ''subtract'' [NumberLiteral ''4'', NumberLiteral ''2''] None] None] None"
  have p: "parser ?tokens = Inr ?ast"
    by code_simp
  have t: "transformer ?ast =
     Inr (Program' 0,
          [[ExpressionStatement (CallExpression' (Identifier ''add'') 1)],
           [NumberLiteral' ''2'', CallExpression' (Identifier ''subtract'') 2],
           [NumberLiteral' ''4'', NumberLiteral' ''2'']])"
    by code_simp
  from statement_wrapping [OF p] p t show ?thesis
    by (intro conjI)
qed

end
